theory Spec2Isabelle
  imports Complex_Main "HOL-Library.Sublist"
begin

section \<open>Strings as Python sees them\<close>

text \<open>
  A Python \<open>str\<close> is a sequence of code points. The model uses \<open>string\<close>, read as
  the code points below 256. \<open>isspace\<close> is Python's \<open>str.isspace\<close> on that range:
  tab, line feed, vertical tab, form feed, carriage return, the four separators
  0x1C..0x1F, the space, and the Latin-1 characters 0x85 and 0xA0.
\<close>

definition isspace :: "char \<Rightarrow> bool" where
  "isspace c = (of_char c \<in> {9, 10, 11, 12, 13, 28, 29, 30, 31, 32, 133, 160 :: nat})"

definition lstrip :: "string \<Rightarrow> string" where
  "lstrip s = dropWhile isspace s"

definition rstrip :: "string \<Rightarrow> string" where
  "rstrip s = rev (dropWhile isspace (rev s))"

definition strip :: "string \<Rightarrow> string" where
  "strip s = rstrip (lstrip s)"

text \<open>\<open>text.replace('\n', ' ')\<close>.\<close>

definition replace_newlines :: "string \<Rightarrow> string" where
  "replace_newlines s = map (\<lambda>c. if c = CHR 0x0A then CHR '' '' else c) s"

text \<open>
  \<open>s.split('. ')\<close>: the occurrences of the separator are found left to right without
  overlap; \<open>n\<close> occurrences give \<open>n + 1\<close> pieces, and the empty string gives one empty
  piece.
\<close>

fun split_dot :: "string \<Rightarrow> string list" where
  "split_dot [] = [[]]"
| "split_dot [c] = [[c]]"
| "split_dot (c # d # rest) =
     (if c = CHR ''.'' \<and> d = CHR '' '' then [] # split_dot rest
      else (case split_dot (d # rest) of
              [] \<Rightarrow> [[c]]
            | r # rs \<Rightarrow> (c # r) # rs))"

text \<open>
  \<open>s[i:]\<close> for a Python string: a negative start counts from the end and is clamped
  at the beginning; a start beyond the end gives the empty string. Note that
  \<open>s[-0:]\<close> is \<open>s[0:]\<close>, the whole string.
\<close>

definition slice_from :: "int \<Rightarrow> string \<Rightarrow> string" where
  "slice_from i s =
     (if i < 0 then drop (nat (int (length s) + i)) s else drop (nat i) s)"

section \<open>PDFProcessor.chunk\_text\<close>

text \<open>
  The dictionaries built by \<open>chunk_text\<close> have exactly the keys \<open>chunk_id\<close>, \<open>text\<close>
  and \<open>length\<close>; the fields are suffixed where the name is taken in HOL.
\<close>

record chunk =
  chunk_id :: int
  text_c :: string
  length_c :: int

text \<open>
  The loop over the sentences, with the three local variables \<open>chunks\<close>,
  \<open>current_chunk\<close> and \<open>chunk_id\<close> passed along. The emitted dictionary stores the
  stripped buffer as \<open>text\<close> and \<open>len(current_chunk)\<close>, the length of the buffer as it
  is, as \<open>length\<close>.
\<close>

definition emit :: "int \<Rightarrow> string \<Rightarrow> chunk" where
  "emit cid current_chunk =
     \<lparr>chunk_id = cid, text_c = strip current_chunk, length_c = int (length current_chunk)\<rparr>"

fun chunk_loop ::
  "int \<Rightarrow> int \<Rightarrow> string list \<Rightarrow> chunk list \<Rightarrow> string \<Rightarrow> int \<Rightarrow> chunk list \<times> string \<times> int" where
  "chunk_loop chunk_size overlap [] chunks current_chunk cid = (chunks, current_chunk, cid)"
| "chunk_loop chunk_size overlap (s # ss) chunks current_chunk cid =
     (let sentence = strip s @ ''. '' in
      if int (length current_chunk) + int (length sentence) > chunk_size \<and> current_chunk \<noteq> []
      then chunk_loop chunk_size overlap ss
             (chunks @ [emit cid current_chunk])
             (slice_from (- overlap) current_chunk @ sentence)
             (cid + 1)
      else chunk_loop chunk_size overlap ss chunks (current_chunk @ sentence) cid)"

definition chunk_text :: "string \<Rightarrow> int \<Rightarrow> int \<Rightarrow> chunk list" where
  "chunk_text txt chunk_size overlap =
     (case chunk_loop chunk_size overlap (split_dot (replace_newlines txt)) [] [] 0 of
        (chunks, current_chunk, cid) \<Rightarrow>
          if current_chunk \<noteq> [] then chunks @ [emit cid current_chunk] else chunks)"

text \<open>
  \<open>process_card_pdf\<close> after text extraction: no card for an empty text, otherwise the
  chunks of \<open>chunk_text\<close> at its default sizes, each tagged with the card's name and
  file. The JSON copy written to the output directory is not modelled.
\<close>

record card_chunk = chunk +
  card_name :: string
  source_file :: string

record processed_card =
  pc_card_name :: string
  pc_source_file :: string
  full_text_length :: int
  num_chunks :: int
  pc_chunks :: "card_chunk list"

definition tag :: "string \<Rightarrow> string \<Rightarrow> chunk \<Rightarrow> card_chunk" where
  "tag name file c =
     \<lparr>chunk_id = chunk_id c, text_c = text_c c, length_c = length_c c,
      card_name = name, source_file = file\<rparr>"

definition process_card_pdf :: "string \<Rightarrow> string \<Rightarrow> string \<Rightarrow> processed_card option" where
  "process_card_pdf full_text file name =
     (if full_text = [] then None
      else let chunks = map (tag name file) (chunk_text full_text 500 100)
           in Some \<lparr>pc_card_name = name, pc_source_file = file,
                    full_text_length = int (length full_text),
                    num_chunks = int (length chunks), pc_chunks = chunks\<rparr>)"

section \<open>The libraries RAGSystem calls\<close>

datatype py_error = IndexError | AssertionError | AttributeError | ValueError

datatype 'a outcome = Returns 'a | Raises py_error

text \<open>
  \<open>xs[i]\<close> on a Python list: a negative index counts from the end, and an index
  outside \<open>-len(xs) .. len(xs) - 1\<close> raises \<open>IndexError\<close>.
\<close>

definition getitem :: "'a list \<Rightarrow> int \<Rightarrow> 'a outcome" where
  "getitem xs i =
     (if 0 \<le> i \<and> i < int (length xs) then Returns (xs ! nat i)
      else if i < 0 \<and> - int (length xs) \<le> i then Returns (xs ! nat (int (length xs) + i))
      else Raises IndexError)"

text \<open>
  \<open>str.lower\<close> on the code points below 256: the ASCII capitals and the Latin-1
  capitals 0xC0..0xDE (0xD7, the multiplication sign, is not a letter) move up by 32.
  \<open>a in b\<close> on strings is \<^const>\<open>sublist\<close>.
\<close>

definition lower_char :: "char \<Rightarrow> char" where
  "lower_char c =
     (let n = of_char c :: nat
      in if (65 \<le> n \<and> n \<le> 90) \<or> (192 \<le> n \<and> n \<le> 222 \<and> n \<noteq> 215)
         then char_of (n + 32) else c)"

definition lower :: "string \<Rightarrow> string" where
  "lower s = map lower_char s"

text \<open>
  A floating-point number is the real number it stands for: an embedding is a
  \<open>real list\<close>, a distance a \<open>real\<close>. \<open>faiss.IndexFlatL2\<close> stores its dimension and
  the vectors added, in the order they were added; it compares by the squared
  Euclidean distance, which is taken here without the rounding of the library's own
  summation.
\<close>

record index_flat_l2 =
  idx_d :: nat
  idx_xb :: "real list list"

definition l2sqr :: "real list \<Rightarrow> real list \<Rightarrow> real" where
  "l2sqr x y = (\<Sum>(a, b) \<leftarrow> zip x y. (a - b)\<^sup>2)"

text \<open>The largest finite single-precision number, \<open>(2 - 2\<^sup>-\<^sup>2\<^sup>3) * 2\<^sup>1\<^sup>2\<^sup>7\<close>.\<close>

definition FLT_MAX :: real where
  "FLT_MAX = 340282346638528859811704183484516925440"

text \<open>
  \<open>index.add(x)\<close>: the wrapper reads \<open>n, d = x.shape\<close> and asserts \<open>d == self.d\<close>,
  then appends the \<open>n\<close> rows. What happens to the array that the embedder returns for
  an empty list of texts is decided inside the two libraries, not in this repository,
  so it is a parameter: \<open>empty_add\<close> is the error raised there, or \<open>None\<close> if the call
  is accepted and adds nothing.
\<close>

definition index_add :: "py_error option \<Rightarrow> index_flat_l2 \<Rightarrow> real list list \<Rightarrow> index_flat_l2 outcome" where
  "index_add empty_add ix x =
     (if x = [] then (case empty_add of Some e \<Rightarrow> Raises e | None \<Rightarrow> Returns ix)
      else if list_ex (\<lambda>v. length v \<noteq> idx_d ix) x then Raises AssertionError
      else Returns (ix\<lparr>idx_xb := idx_xb ix @ x\<rparr>))"

text \<open>
  \<open>index.search(q, k)\<close> for one query vector: the wrapper asserts the dimension of
  the query and \<open>k > 0\<close>. The result always has \<open>k\<close> entries, nearest first, each a
  position and its distance; when fewer than \<open>k\<close> vectors are stored the missing
  entries are filled with the position \<open>-1\<close> and the distance \<open>FLT_MAX\<close>, as the
  library documents for a search that finds fewer than \<open>k\<close> neighbours. Equal
  distances keep the order of insertion.
\<close>

definition index_search :: "index_flat_l2 \<Rightarrow> real list \<Rightarrow> int \<Rightarrow> (int \<times> real) list outcome" where
  "index_search ix q k =
     (if length q \<noteq> idx_d ix \<or> k \<le> 0 then Raises AssertionError
      else let scored = zip (map int [0 ..< length (idx_xb ix)]) (map (l2sqr q) (idx_xb ix));
               found = take (nat k) (sort_key snd scored)
           in Returns (found @ replicate (nat k - length found) (- 1, FLT_MAX)))"

section \<open>RAGSystem\<close>

text \<open>
  The instance fields. \<open>model\<close> is the embedder, one vector per text, the same
  vector for the same text; \<open>model.encode(texts)\<close> is \<open>map model texts\<close>. The two
  files of the embeddings directory are the \<open>disk\<close>; a file either is absent
  (\<open>None\<close>) or holds what was last written to it. \<open>faiss.write_index\<close> accepts \<open>None\<close>
  in place of an index and writes the file of a null index, from which
  \<open>faiss.read_index\<close> gives \<open>None\<close> back; so the content of the index file is an
  \<open>index_flat_l2 option\<close>.
\<close>

record rag_system =
  model :: "string \<Rightarrow> real list"
  index :: "index_flat_l2 option"
  chunks :: "card_chunk list"
  dimension :: nat

record disk =
  faiss_index_bin :: "index_flat_l2 option option"
  chunks_metadata_pkl :: "card_chunk list option"

definition init :: "(string \<Rightarrow> real list) \<Rightarrow> rag_system" where
  "init m = \<lparr>model = m, index = None, chunks = [], dimension = 384\<rparr>"

definition save_index :: "rag_system \<Rightarrow> disk \<Rightarrow> disk" where
  "save_index self dsk =
     \<lparr>faiss_index_bin = Some (index self), chunks_metadata_pkl = Some (chunks self)\<rparr>"

text \<open>
  \<open>create_embeddings\<close> assigns \<open>self.chunks\<close> and the fresh \<open>self.index\<close> before
  \<open>add\<close> runs, so both assignments stand when \<open>add\<close> raises.
\<close>

definition create_embeddings ::
  "py_error option \<Rightarrow> rag_system \<Rightarrow> disk \<Rightarrow> processed_card list \<Rightarrow> unit outcome \<times> rag_system \<times> disk" where
  "create_embeddings empty_add self dsk processed_cards =
     (let collected = concat (map pc_chunks processed_cards);
          texts = map text_c collected;
          embeddings = map (model self) texts;
          fresh = \<lparr>idx_d = dimension self, idx_xb = []\<rparr>
      in case index_add empty_add fresh embeddings of
           Raises e \<Rightarrow> (Raises e, self\<lparr>chunks := collected, index := Some fresh\<rparr>, dsk)
         | Returns ix \<Rightarrow>
             (let self' = self\<lparr>chunks := collected, index := Some ix\<rparr>
              in (Returns (), self', save_index self' dsk)))"

text \<open>
  \<open>load_index\<close> returns \<open>False\<close> when a file is missing. Otherwise it assigns both
  fields and then prints \<open>self.index.ntotal\<close>, which raises \<open>AttributeError\<close> when the
  file held a null index.
\<close>

definition load_index :: "rag_system \<Rightarrow> disk \<Rightarrow> bool outcome \<times> rag_system" where
  "load_index self dsk =
     (case (faiss_index_bin dsk, chunks_metadata_pkl dsk) of
        (Some loaded, Some cs) \<Rightarrow>
          (case loaded of None \<Rightarrow> Raises AttributeError | Some ix \<Rightarrow> Returns True,
           self\<lparr>index := loaded, chunks := cs\<rparr>)
      | _ \<Rightarrow> (Returns False, self))"

subsection \<open>Floating-point arithmetic\<close>

text \<open>
  \<open>1.0 / (1.0 + distance)\<close> is evaluated in floating point, on a single-precision
  \<open>distance\<close>: in single precision where NumPy keeps the type of its own scalar, in
  double precision where it promotes to the type of the Python constant. A format
  is its precision in bits and its smallest exponent. \<open>fl\<close> rounds a real number to
  the nearest number of the format, a tie to the one with the even significand, as
  every operation of IEEE 754 arithmetic does; numbers below \<open>2 ^ emin\<close> keep the
  spacing of the smallest exponent. Overflow is not modelled: it does not arise in
  \<open>1.0 + distance\<close> for a finite single-precision distance, nor in its reciprocal.
\<close>

record float_format =
  precision :: nat
  emin :: int

definition binary32 :: float_format where
  "binary32 = \<lparr>precision = 24, emin = - 126\<rparr>"

definition binary64 :: float_format where
  "binary64 = \<lparr>precision = 53, emin = - 1022\<rparr>"

definition round_half_even :: "real \<Rightarrow> int" where
  "round_half_even r =
     (if r - of_int \<lfloor>r\<rfloor> < 1 / 2 then \<lfloor>r\<rfloor>
      else if r - of_int \<lfloor>r\<rfloor> > 1 / 2 then \<lfloor>r\<rfloor> + 1
      else if even \<lfloor>r\<rfloor> then \<lfloor>r\<rfloor> else \<lfloor>r\<rfloor> + 1)"

definition exponent :: "float_format \<Rightarrow> real \<Rightarrow> int" where
  "exponent fmt x = max \<lfloor>log 2 \<bar>x\<bar>\<rfloor> (emin fmt)"

definition ulp :: "float_format \<Rightarrow> real \<Rightarrow> real" where
  "ulp fmt x = 2 powr (of_int (exponent fmt x) - real (precision fmt) + 1)"

definition fl :: "float_format \<Rightarrow> real \<Rightarrow> real" where
  "fl fmt x = (if x = 0 then 0 else ulp fmt x * of_int (round_half_even (x / ulp fmt x)))"

text \<open>
  The value stored under \<open>relevance\<close> is kept as the expression that the code
  evaluates; \<open>float_value\<close> is its value in a given format, the sum rounded and then
  the quotient rounded.
\<close>

datatype relevance_expr = One_over_one_plus real

fun float_value :: "float_format \<Rightarrow> relevance_expr \<Rightarrow> real" where
  "float_value fmt (One_over_one_plus d) = fl fmt (1 / fl fmt (1 + d))"

subsection \<open>Searching\<close>

text \<open>
  A result is a copy of the chunk with the two keys \<open>score\<close> and \<open>relevance\<close> added.
\<close>

record result = card_chunk +
  score :: real
  relevance :: relevance_expr

definition make_result :: "card_chunk \<Rightarrow> real \<Rightarrow> result" where
  "make_result c distance =
     \<lparr>chunk_id = chunk_id c, text_c = text_c c, length_c = length_c c,
      card_name = card_name c, source_file = source_file c,
      score = distance, relevance = One_over_one_plus distance\<rparr>"

definition accepted :: "string option \<Rightarrow> result \<Rightarrow> bool" where
  "accepted card_filter r =
     (case card_filter of
        None \<Rightarrow> True
      | Some f \<Rightarrow> sublist (lower f) (lower (card_name r)))"

text \<open>
  The loop over \<open>zip(indices[0], distances[0])\<close>. The test \<open>len(results) >= k\<close> and
  its \<open>break\<close> stand inside the branch \<open>idx < len(self.chunks)\<close>.
\<close>

fun collect ::
  "card_chunk list \<Rightarrow> int \<Rightarrow> string option \<Rightarrow> (int \<times> real) list \<Rightarrow> result list \<Rightarrow> result list outcome" where
  "collect cs k card_filter [] results = Returns results"
| "collect cs k card_filter ((idx, distance) # rest) results =
     (if idx < int (length cs) then
        (case getitem cs idx of
           Raises e \<Rightarrow> Raises e
         | Returns c \<Rightarrow>
             (let r = make_result c distance;
                  results' = (if accepted card_filter r then results @ [r] else results)
              in if int (length results') \<ge> k then Returns results'
                 else collect cs k card_filter rest results'))
      else collect cs k card_filter rest results)"

text \<open>
  \<open>k if not card_filter else k * 3\<close>: \<open>None\<close> and the empty string are both false.
\<close>

definition fetch_limit :: "int \<Rightarrow> string option \<Rightarrow> int" where
  "fetch_limit k card_filter =
     (if card_filter = None \<or> card_filter = Some [] then k else k * 3)"

definition search :: "rag_system \<Rightarrow> string \<Rightarrow> int \<Rightarrow> string option \<Rightarrow> result list outcome" where
  "search self query k card_filter =
     (case index self of
        None \<Rightarrow> Returns []
      | Some ix \<Rightarrow>
          (case index_search ix (model self query) (fetch_limit k card_filter) of
             Raises e \<Rightarrow> Raises e
           | Returns candidates \<Rightarrow> collect (chunks self) k card_filter candidates []))"

section \<open>Auxiliary notions\<close>

text \<open>
  What the proofs below say about the buffer \<open>current_chunk\<close>: it ends with the
  separator that the loop appends to every sentence; a buffer is \<open>seeded\<close> from a
  chunk when it starts with the slice that the loop kept of that chunk's buffer; a
  list of chunks is \<open>linked\<close> when each chunk's buffer was seeded from the chunk
  before it. \<open>rebuilt\<close> is the buffer of a text that is never cut: every sentence
  stripped and followed by the separator.
\<close>

definition ends_dot :: "string \<Rightarrow> bool" where
  "ends_dot b = suffix ''. '' b"

definition seeded :: "int \<Rightarrow> chunk \<Rightarrow> string \<Rightarrow> bool" where
  "seeded ov c cur = (\<exists>b m. ends_dot b \<and> text_c c = strip b \<and> cur = slice_from (- ov) b @ m @ ''. '')"

definition linked :: "int \<Rightarrow> chunk list \<Rightarrow> bool" where
  "linked ov acc = (\<forall>i. Suc i < length acc \<longrightarrow> (\<exists>b. seeded ov (acc ! i) b \<and> text_c (acc ! Suc i) = strip b))"

definition rebuilt :: "string \<Rightarrow> string" where
  "rebuilt t = concat (map (\<lambda>s. strip s @ ''. '') (split_dot (replace_newlines t)))"

subsection \<open>Example inputs\<close>

text \<open>
  An embedder of dimension 384 that sees only the length of a text, two processed
  cards of one chunk each, and the instances that \<open>create_embeddings\<close> builds from
  them. \<open>fine_model\<close> is a second embedder, under which texts whose lengths differ
  by one lie \<open>1 / 2 ^ 30\<close> apart; \<open>close_card\<close> is the instance built with it from the
  first card.
\<close>

definition example_model :: "string \<Rightarrow> real list" where
  "example_model s = replicate 384 (real (length s))"

definition visa_chunk :: card_chunk where
  "visa_chunk = \<lparr>chunk_id = 0, text_c = ''Annual fee is 95.'', length_c = 18,
     card_name = ''Visa Gold'', source_file = ''visa_gold.pdf''\<rparr>"

definition amex_chunk :: card_chunk where
  "amex_chunk = \<lparr>chunk_id = 0, text_c = ''No annual fee.'', length_c = 15,
     card_name = ''Amex Blue'', source_file = ''amex_blue.pdf''\<rparr>"

definition visa_card :: processed_card where
  "visa_card = \<lparr>pc_card_name = ''Visa Gold'', pc_source_file = ''visa_gold.pdf'',
     full_text_length = 16, num_chunks = 1, pc_chunks = [visa_chunk]\<rparr>"

definition amex_card :: processed_card where
  "amex_card = \<lparr>pc_card_name = ''Amex Blue'', pc_source_file = ''amex_blue.pdf'',
     full_text_length = 13, num_chunks = 1, pc_chunks = [amex_chunk]\<rparr>"

definition empty_disk :: disk where
  "empty_disk = \<lparr>faiss_index_bin = None, chunks_metadata_pkl = None\<rparr>"

definition two_cards :: rag_system where
  "two_cards = \<lparr>model = example_model,
     index = Some \<lparr>idx_d = 384, idx_xb = [example_model ''Annual fee is 95.'', example_model ''No annual fee.'']\<rparr>,
     chunks = [visa_chunk, amex_chunk], dimension = 384\<rparr>"

definition fine_model :: "string \<Rightarrow> real list" where
  "fine_model s = (real (length s) / 2 ^ 30) # replicate 383 0"

definition close_card :: rag_system where
  "close_card = \<lparr>model = fine_model,
     index = Some \<lparr>idx_d = 384, idx_xb = [fine_model ''Annual fee is 95.'']\<rparr>,
     chunks = [visa_chunk], dimension = 384\<rparr>"

definition one_card :: rag_system where
  "one_card = \<lparr>model = example_model,
     index = Some \<lparr>idx_d = 384, idx_xb = [example_model ''Annual fee is 95.'']\<rparr>,
     chunks = [visa_chunk], dimension = 384\<rparr>"

section \<open>Facts about the strings\<close>

lemma isspace_space: "isspace CHR '' ''"
  by (simp add: isspace_def)

lemma not_isspace_dot: "\<not> isspace CHR ''.''"
  by (simp add: isspace_def)

lemma lstrip_dot_space: "lstrip (p @ ''. '') = lstrip p @ ''. ''"
  unfolding lstrip_def by (induction p) (simp_all add: not_isspace_dot)

lemma rstrip_dot_space: "rstrip (q @ ''. '') = q @ ''.''"
  by (simp add: rstrip_def isspace_space not_isspace_dot)

lemma strip_dot_space: "strip (p @ ''. '') = lstrip p @ ''.''"
  by (simp add: strip_def lstrip_dot_space rstrip_dot_space)

lemma length_lstrip: "length (lstrip s) \<le> length s"
  unfolding lstrip_def by (rule length_dropWhile_le)

lemma length_strip: "length (strip s) \<le> length s"
proof -
  have "length (rstrip u) \<le> length u" for u
    using length_dropWhile_le [of isspace "rev u"] by (simp add: rstrip_def)
  from this [of "lstrip s"] length_lstrip [of s] show ?thesis
    by (simp add: strip_def)
qed

lemma split_dot_nonempty: "split_dot s \<noteq> []"
  by (induction s rule: split_dot.induct) (auto split: list.splits)

lemma split_dot_lengths: "(\<Sum>s \<leftarrow> split_dot u. length s + 2) = length u + 2"
proof (induction u rule: split_dot.induct)
  case (3 c d rest)
  then show ?case
    using split_dot_nonempty [of "d # rest"]
    by (auto split: list.splits)
qed simp_all

section \<open>Facts about the loop of chunk\_text\<close>

lemma ends_dotE: "ends_dot b \<Longrightarrow> \<exists>p. b = p @ ''. ''"
  by (auto simp: ends_dot_def suffix_def)

lemma ends_dot_append: "ends_dot (b @ s @ ''. '')"
  by (simp add: ends_dot_def suffix_def)

lemma emit_length: "ends_dot b \<Longrightarrow> int (length (text_c (emit cid b))) < length_c (emit cid b)"
proof -
  assume "ends_dot b"
  then obtain p where b: "b = p @ ''. ''" by (auto dest: ends_dotE)
  have "length (lstrip p) \<le> length p" by (rule length_lstrip)
  then show ?thesis by (simp add: emit_def b strip_dot_space)
qed

lemma chunk_loop_emitted:
  assumes "chunk_loop cs ov ss acc cur cid = (acc', cur', cid')"
    and "cur = [] \<or> ends_dot cur"
    and "\<forall>c \<in> set acc. P c"
    and "\<And>n b. ends_dot b \<Longrightarrow> P (emit n b)"
  shows "(\<forall>c \<in> set acc'. P c) \<and> (cur' = [] \<or> ends_dot cur')"
  using assms(1-3)
proof (induction ss arbitrary: acc cur cid)
  case Nil
  then show ?case by simp
next
  case (Cons s ss)
  show ?case
  proof (cases "int (length cur) + int (length (strip s @ ''. '')) > cs \<and> cur \<noteq> []")
    case True
    with Cons.prems have run: "chunk_loop cs ov ss (acc @ [emit cid cur])
        (slice_from (- ov) cur @ strip s @ ''. '') (cid + 1) = (acc', cur', cid')"
      by (simp add: Let_def)
    from True Cons.prems have "ends_dot cur" by simp
    then have "\<forall>c \<in> set (acc @ [emit cid cur]). P c"
      using Cons.prems(3) assms(4) by simp
    from Cons.IH [OF run _ this] show ?thesis
      by (simp add: ends_dot_append)
  next
    case False
    with Cons.prems have run: "chunk_loop cs ov ss acc (cur @ strip s @ ''. '') cid = (acc', cur', cid')"
      by (auto simp: Let_def)
    from Cons.IH [OF run _ Cons.prems(3)] show ?thesis
      by (simp add: ends_dot_append)
  qed
qed

lemma chunk_text_emitted:
  assumes "\<And>n b. ends_dot b \<Longrightarrow> P (emit n b)"
  shows "\<forall>c \<in> set (chunk_text t cs ov). P c"
proof -
  obtain acc cur cid where run:
    "chunk_loop cs ov (split_dot (replace_newlines t)) [] [] 0 = (acc, cur, cid)"
    by (metis prod_cases3)
  have "(\<forall>c \<in> set acc. P c) \<and> (cur = [] \<or> ends_dot cur)"
    by (rule chunk_loop_emitted [OF run]) (simp_all add: assms)
  then show ?thesis
    using assms by (auto simp: chunk_text_def run)
qed

lemma chunk_loop_buffer_nonempty:
  "chunk_loop cs ov ss acc cur cid = (acc', cur', cid') \<Longrightarrow> ss \<noteq> [] \<or> cur \<noteq> [] \<Longrightarrow> cur' \<noteq> []"
proof (induction ss arbitrary: acc cur cid)
  case Nil
  then show ?case by simp
next
  case (Cons s ss)
  then show ?case
    by (auto simp: Let_def split: if_splits)
qed

lemma chunk_text_nonempty: "chunk_text t cs ov \<noteq> []"
proof -
  obtain acc cur cid where run:
    "chunk_loop cs ov (split_dot (replace_newlines t)) [] [] 0 = (acc, cur, cid)"
    by (metis prod_cases3)
  from chunk_loop_buffer_nonempty [OF run] split_dot_nonempty have "cur \<noteq> []" by simp
  then show ?thesis by (simp add: chunk_text_def run)
qed

lemma chunk_loop_fits:
  "int (length cur) + int (length (concat (map (\<lambda>s. strip s @ ''. '') ss))) \<le> cs \<Longrightarrow>
   chunk_loop cs ov ss acc cur cid = (acc, cur @ concat (map (\<lambda>s. strip s @ ''. '') ss), cid)"
  by (induction ss arbitrary: cur) (auto simp: Let_def)

lemma length_rebuilt: "length (rebuilt t) \<le> length t + 2"
proof -
  have "length (concat (map (\<lambda>s. strip s @ ''. '') xs)) \<le> (\<Sum>s \<leftarrow> xs. length s + 2)" for xs
  proof (induction xs)
    case (Cons x xs)
    then show ?case using length_strip [of x] by simp
  qed simp
  from this [of "split_dot (replace_newlines t)"]
  have "length (rebuilt t) \<le> length (replace_newlines t) + 2"
    unfolding rebuilt_def split_dot_lengths .
  then show ?thesis
    by (simp add: replace_newlines_def)
qed

lemma rebuilt_nonempty: "rebuilt t \<noteq> []"
  using split_dot_nonempty [of "replace_newlines t"]
  by (cases "split_dot (replace_newlines t)") (simp_all add: rebuilt_def)

lemma seeded_emit: "ends_dot cur \<Longrightarrow> seeded ov (emit cid cur) (slice_from (- ov) cur @ s @ ''. '')"
  unfolding seeded_def by (rule exI [of _ cur], rule exI [of _ s]) (simp add: emit_def)

lemma seeded_append: "seeded ov c cur \<Longrightarrow> seeded ov c (cur @ s @ ''. '')"
proof -
  assume "seeded ov c cur"
  then obtain b m where b: "ends_dot b" "text_c c = strip b" "cur = slice_from (- ov) b @ m @ ''. ''"
    unfolding seeded_def by blast
  then have "cur @ s @ ''. '' = slice_from (- ov) b @ (m @ ''. '' @ s) @ ''. ''" by simp
  with b(1,2) show ?thesis unfolding seeded_def by blast
qed

lemma linked_snoc:
  assumes "linked ov acc" and "acc \<noteq> [] \<longrightarrow> seeded ov (last acc) cur"
  shows "linked ov (acc @ [emit cid cur])"
  unfolding linked_def
proof (intro allI impI)
  fix i assume i: "Suc i < length (acc @ [emit cid cur])"
  show "\<exists>b. seeded ov ((acc @ [emit cid cur]) ! i) b \<and> text_c ((acc @ [emit cid cur]) ! Suc i) = strip b"
  proof (cases "Suc i < length acc")
    case True
    with assms(1) show ?thesis by (simp add: linked_def nth_append)
  next
    case False
    with i have eq: "Suc i = length acc" by simp
    then have "acc \<noteq> []" by auto
    moreover from eq have "acc ! i = last acc"
      by (metis \<open>acc \<noteq> []\<close> diff_Suc_1 last_conv_nth)
    ultimately have "seeded ov (acc ! i) cur" using assms(2) by simp
    moreover from eq have "(acc @ [emit cid cur]) ! i = acc ! i" by (simp add: nth_append)
    moreover from eq have "(acc @ [emit cid cur]) ! Suc i = emit cid cur" by (simp add: nth_append)
    ultimately show ?thesis by (auto simp: emit_def)
  qed
qed

lemma chunk_loop_linked:
  assumes "chunk_loop cs ov ss acc cur cid = (acc', cur', cid')"
    and "cur = [] \<or> ends_dot cur"
    and "acc \<noteq> [] \<longrightarrow> seeded ov (last acc) cur"
    and "linked ov acc"
  shows "(cur' = [] \<or> ends_dot cur') \<and> (acc' \<noteq> [] \<longrightarrow> seeded ov (last acc') cur') \<and> linked ov acc'"
  using assms
proof (induction ss arbitrary: acc cur cid)
  case Nil
  then show ?case by simp
next
  case (Cons s ss)
  show ?case
  proof (cases "int (length cur) + int (length (strip s @ ''. '')) > cs \<and> cur \<noteq> []")
    case True
    with Cons.prems have run: "chunk_loop cs ov ss (acc @ [emit cid cur])
        (slice_from (- ov) cur @ strip s @ ''. '') (cid + 1) = (acc', cur', cid')"
      by (simp add: Let_def)
    from True Cons.prems have "ends_dot cur" by simp
    then have "seeded ov (last (acc @ [emit cid cur])) (slice_from (- ov) cur @ strip s @ ''. '')"
      by (simp add: seeded_emit)
    moreover have "linked ov (acc @ [emit cid cur])"
      using Cons.prems(3,4) by (rule linked_snoc [rotated])
    ultimately show ?thesis
      using Cons.IH [OF run] by (simp add: ends_dot_append)
  next
    case False
    with Cons.prems have run: "chunk_loop cs ov ss acc (cur @ strip s @ ''. '') cid = (acc', cur', cid')"
      by (auto simp: Let_def)
    have "acc \<noteq> [] \<longrightarrow> seeded ov (last acc) (cur @ strip s @ ''. '')"
      using Cons.prems(3) by (simp add: seeded_append)
    then show ?thesis
      using Cons.IH [OF run _ _ Cons.prems(4)] by (simp add: ends_dot_append)
  qed
qed

lemma chunk_text_linked: "linked ov (chunk_text t cs ov)"
proof -
  obtain acc cur cid where run:
    "chunk_loop cs ov (split_dot (replace_newlines t)) [] [] 0 = (acc, cur, cid)"
    by (metis prod_cases3)
  have "(cur = [] \<or> ends_dot cur) \<and> (acc \<noteq> [] \<longrightarrow> seeded ov (last acc) cur) \<and> linked ov acc"
    by (rule chunk_loop_linked [OF run]) (simp_all add: linked_def)
  then show ?thesis
    by (simp add: chunk_text_def run linked_snoc)
qed

lemma slice_last_chars: "0 < ov \<Longrightarrow> slice_from (- ov) s = drop (length s - nat ov) s"
  by (simp add: slice_from_def nat_diff_distrib')

lemma lstrip_skip: "\<forall>c \<in> set lead. isspace c \<Longrightarrow> lstrip (lead @ x) = lstrip x"
  unfolding lstrip_def by (simp add: dropWhile_append2)

lemma lstrip_prefix: "prefix (lstrip s) (lstrip (s @ m))"
proof (cases "\<forall>c \<in> set s. isspace c")
  case True
  then have "lstrip s = []" by (simp add: lstrip_def)
  then show ?thesis by simp
next
  case False
  then obtain c where "c \<in> set s" "\<not> isspace c" by blast
  then have "lstrip (s @ m) = lstrip s @ m"
    unfolding lstrip_def by (rule dropWhile_append1)
  then show ?thesis by simp
qed

lemma seeded_prefix:
  assumes "seeded ov c cur" and "0 < ov"
  shows "prefix (lstrip (drop (length (text_c c @ '' '') - nat ov) (text_c c @ '' ''))) (strip cur)"
proof -
  from assms(1) obtain b m where b: "ends_dot b" "text_c c = strip b"
    "cur = slice_from (- ov) b @ m @ ''. ''"
    unfolding seeded_def by blast
  from b(1) obtain p where p: "b = p @ ''. ''" by (auto dest: ends_dotE)
  define lead where "lead = takeWhile isspace p"
  define u where "u = text_c c @ '' ''"
  have u: "u = lstrip p @ ''. ''" by (simp add: u_def b(2) p strip_dot_space)
  have bu: "b = lead @ u"
    by (simp add: u p lead_def lstrip_def)
  have lead: "\<forall>c \<in> set lead. isspace c"
    by (auto simp: lead_def dest: set_takeWhileD)
  have "slice_from (- ov) b = drop (length lead + length u - nat ov) lead @ drop (length u - nat ov) u"
    using assms(2) by (simp add: slice_last_chars bu) 
  moreover have "\<forall>c \<in> set (drop (length lead + length u - nat ov) lead). isspace c"
    using lead by (auto dest: in_set_dropD)
  ultimately have "lstrip (slice_from (- ov) b) = lstrip (drop (length u - nat ov) u)"
    by (simp add: lstrip_skip)
  moreover have "strip cur = lstrip (slice_from (- ov) b @ m) @ ''.''"
    using strip_dot_space [of "slice_from (- ov) b @ m"] by (simp add: b(3))
  moreover have "prefix (lstrip (slice_from (- ov) b)) (lstrip (slice_from (- ov) b @ m))"
    by (rule lstrip_prefix)
  ultimately show ?thesis
    unfolding u_def by (simp add: prefix_prefix)
qed

section \<open>Claims about chunk\_text\<close>

lemma chunks_aaa: "chunk_text ''aaa. bbb. ccc'' 6 3 =
  [\<lparr>chunk_id = 0, text_c = ''aaa.'', length_c = 5\<rparr>,
   \<lparr>chunk_id = 1, text_c = ''a. bbb.'', length_c = 8\<rparr>,
   \<lparr>chunk_id = 2, text_c = ''b. ccc.'', length_c = 8\<rparr>]"
  by code_simp

lemma chunks_ab: "chunk_text ''a. b'' 5 1 =
  [\<lparr>chunk_id = 0, text_c = ''a.'', length_c = 3\<rparr>,
   \<lparr>chunk_id = 1, text_c = ''b.'', length_c = 4\<rparr>]"
  by code_simp

lemma chunks_hello: "chunk_text ''Hello'' 500 100 = [\<lparr>chunk_id = 0, text_c = ''Hello.'', length_c = 7\<rparr>]"
  by code_simp

lemma chunks_abc: "chunk_text ''A. B. C'' 2 5 =
  [\<lparr>chunk_id = 0, text_c = ''A.'', length_c = 3\<rparr>,
   \<lparr>chunk_id = 1, text_c = ''A. B.'', length_c = 6\<rparr>,
   \<lparr>chunk_id = 2, text_c = ''. B. C.'', length_c = 8\<rparr>]"
  by code_simp

text \<open>
  C4, as stated: with \<open>0 \<le> overlap < chunk_size\<close>, every chunk after the first begins
  with the last \<open>overlap\<close> characters of the text of the chunk before it. It fails for
  the text \<open>aaa. bbb. ccc\<close> with \<open>chunk_size = 6\<close> and \<open>overlap = 3\<close>: the first chunk
  is \<open>aaa.\<close>, whose last three characters are \<open>aa.\<close>, and the second chunk is
  \<open>a. bbb.\<close>.
\<close>

theorem overlap_of_text_counterexample:
  "(0::int) \<le> 3 \<and> (3::int) < 6 \<and>
   \<not> prefix (drop (length (text_c (chunk_text ''aaa. bbb. ccc'' 6 3 ! 0)) - 3)
                   (text_c (chunk_text ''aaa. bbb. ccc'' 6 3 ! 0)))
             (text_c (chunk_text ''aaa. bbb. ccc'' 6 3 ! 1))"
  by (simp add: chunks_aaa)

text \<open>
  C4, amended: the slice is cut from the buffer, which is the text of the chunk
  followed by the space that \<open>strip\<close> removed from it. For every \<open>chunk_size\<close> and
  every \<open>overlap > 0\<close>, every chunk after the first begins with the last \<open>overlap\<close>
  characters of its predecessor's text followed by one space, less the white space
  at the start of that slice (the new chunk's text is stripped as well).
\<close>

theorem overlap_from_buffer:
  assumes "0 < ov" and "Suc i < length (chunk_text t cs ov)"
  shows "prefix (lstrip (drop (length (text_c (chunk_text t cs ov ! i) @ '' '') - nat ov)
                          (text_c (chunk_text t cs ov ! i) @ '' '')))
                (text_c (chunk_text t cs ov ! Suc i))"
proof -
  from chunk_text_linked [of ov t cs] assms(2)
  obtain b where "seeded ov (chunk_text t cs ov ! i) b" "text_c (chunk_text t cs ov ! Suc i) = strip b"
    unfolding linked_def by blast
  with seeded_prefix [OF _ assms(1)] show ?thesis by simp
qed

theorem overlap_from_buffer_witness:
  "(0::int) < 3 \<and> Suc 0 < length (chunk_text ''aaa. bbb. ccc'' 6 3) \<and>
   prefix ''a. '' (text_c (chunk_text ''aaa. bbb. ccc'' 6 3 ! Suc 0))"
  using overlap_from_buffer [of 3 0 "''aaa. bbb. ccc''" 6]
  by (simp add: chunks_aaa lstrip_def isspace_def)

text \<open>
  C5, as stated: a call with \<open>overlap \<ge> chunk_size\<close> fails with a configuration
  error. \<open>chunk_text\<close> has no \<open>raise\<close> and compares \<open>overlap\<close> with nothing; with
  \<open>chunk_size = 2\<close> and \<open>overlap = 5\<close> it returns three chunks.
\<close>

theorem overlap_not_checked_counterexample:
  "(2::int) \<le> 5 \<and> chunk_text ''A. B. C'' 2 5 =
     [\<lparr>chunk_id = 0, text_c = ''A.'', length_c = 3\<rparr>,
      \<lparr>chunk_id = 1, text_c = ''A. B.'', length_c = 6\<rparr>,
      \<lparr>chunk_id = 2, text_c = ''. B. C.'', length_c = 8\<rparr>]"
  by (simp add: chunks_abc)

text \<open>
  C5, amended: a call with \<open>overlap \<ge> chunk_size\<close> is not rejected; it returns, as
  every call does, at least one chunk, and no chunk has an empty text.
\<close>

theorem large_overlap_accepted:
  assumes "chunk_size \<le> overlap"
  shows "chunk_text t chunk_size overlap \<noteq> []
         \<and> (\<forall>c \<in> set (chunk_text t chunk_size overlap). text_c c \<noteq> [])"
proof -
  have "text_c (emit n b) \<noteq> []" if "ends_dot b" for n b
    using ends_dotE [OF that] by (auto simp: emit_def strip_dot_space)
  then have "\<forall>c \<in> set (chunk_text t chunk_size overlap). text_c c \<noteq> []"
    by (rule chunk_text_emitted)
  then show ?thesis
    by (simp add: chunk_text_nonempty)
qed

theorem large_overlap_accepted_witness:
  "(2::int) \<le> 5 \<and> chunk_text ''A. B. C'' 2 5 \<noteq> []
   \<and> text_c (chunk_text ''A. B. C'' 2 5 ! 2) \<noteq> []"
  using large_overlap_accepted [of 2 5 "''A. B. C''"]
  by (simp add: chunks_abc)

text \<open>
  C6, as stated: a text shorter than \<open>chunk_size\<close> gives exactly one chunk, whose
  text is the normalised, trimmed input. Both halves fail. The loop measures the
  buffer, in which every sentence carries the two characters of its separator: the
  four characters \<open>a. b\<close> with \<open>chunk_size = 5\<close> give two chunks. And the separator
  is appended to the last sentence too: \<open>Hello\<close> comes back as \<open>Hello.\<close>.
\<close>

theorem short_text_counterexample:
  "int (length ''a. b'') < 5 \<and> length (chunk_text ''a. b'' 5 1) = 2
   \<and> int (length ''Hello'') < 500
   \<and> map text_c (chunk_text ''Hello'' 500 100) = [''Hello.'']
   \<and> strip (replace_newlines ''Hello'') = ''Hello''"
proof -
  have "strip (replace_newlines ''Hello'') = ''Hello''"
    by code_simp
  then show ?thesis
    by (simp add: chunks_ab chunks_hello)
qed

lemma short_text_chunks:
  assumes "int (length t) + 2 \<le> cs"
  shows "chunk_text t cs ov = [emit 0 (rebuilt t)]"
proof -
  have "int (length (rebuilt t)) \<le> cs"
    using length_rebuilt [of t] assms by linarith
  then have "chunk_loop cs ov (split_dot (replace_newlines t)) [] [] 0 = ([], rebuilt t, 0)"
    using chunk_loop_fits [of "[]" "split_dot (replace_newlines t)" cs ov "[]" 0]
    by (simp add: rebuilt_def)
  then show ?thesis
    by (simp add: chunk_text_def rebuilt_nonempty)
qed

text \<open>
  C6, amended: for every text with \<open>len(text) + 2 \<le> chunk_size\<close>, \<open>chunk_text\<close>
  returns exactly one chunk; its text is the stripped buffer in which every sentence
  of the normalised input is stripped and followed by \<open>'. '\<close>.
\<close>

theorem short_text_one_chunk:
  assumes "int (length t) + 2 \<le> chunk_size"
  shows "map text_c (chunk_text t chunk_size overlap) = [strip (rebuilt t)]"
  using short_text_chunks [OF assms, of overlap] by (simp add: emit_def)

text \<open>
  The four characters \<open>a. b\<close>, which \<open>chunk_size = 5\<close> cuts in two, give the one chunk
  \<open>a. b.\<close> with \<open>chunk_size = 6\<close>.
\<close>

theorem short_text_one_chunk_witness:
  "int (length ''a. b'') + 2 \<le> 6
   \<and> map text_c (chunk_text ''a. b'' 6 1) = [''a. b.'']"
proof -
  have "strip (rebuilt ''a. b'') = ''a. b.''"
    by code_simp
  then show ?thesis
    using short_text_one_chunk [of "''a. b''" 6 1] by simp
qed

text \<open>
  C9 says that the \<open>length\<close> of a chunk is the number of characters of its \<open>text\<close>.
  The dictionary takes \<open>text\<close> from \<open>current_chunk.strip()\<close> but \<open>length\<close> from
  \<open>len(current_chunk)\<close>, and the buffer always ends with the space of the last
  separator. What holds instead: in every chunk that \<open>chunk_text\<close> returns,
  \<open>length\<close> is greater than the number of characters of \<open>text\<close>.
\<close>

theorem length_field_exceeds_text:
  "c \<in> set (chunk_text t cs ov) \<Longrightarrow> int (length (text_c c)) < length_c c"
  using chunk_text_emitted [of "\<lambda>c. int (length (text_c c)) < length_c c" t cs ov] emit_length
  by blast

theorem length_field_exceeds_text_witness:
  "\<lparr>chunk_id = 1, text_c = ''b.'', length_c = 4\<rparr> \<in> set (chunk_text ''a. b'' 5 1)
   \<and> int (length (text_c \<lparr>chunk_id = 1, text_c = ''b.'', length_c = 4\<rparr>))
       < length_c \<lparr>chunk_id = 1, text_c = ''b.'', length_c = 4\<rparr>"
  using length_field_exceeds_text [of "\<lparr>chunk_id = 1, text_c = ''b.'', length_c = 4\<rparr>" "''a. b''" 5 1]
  by (simp add: chunks_ab)

section \<open>Facts about rounding\<close>

lemma round_half_even_int: "round_half_even (of_int n) = n"
  by (simp add: round_half_even_def)

lemma round_half_even_mono: "r \<le> s \<Longrightarrow> round_half_even r \<le> round_half_even s"
proof -
  assume rs: "r \<le> s"
  then have fl: "\<lfloor>r\<rfloor> \<le> \<lfloor>s\<rfloor>" by (rule floor_mono)
  have up: "round_half_even r \<le> \<lfloor>r\<rfloor> + 1" and lo: "\<lfloor>s\<rfloor> \<le> round_half_even s"
    by (simp_all add: round_half_even_def)
  show ?thesis
  proof (cases "\<lfloor>r\<rfloor> < \<lfloor>s\<rfloor>")
    case True
    with up lo show ?thesis by linarith
  next
    case False
    with fl have "\<lfloor>r\<rfloor> = \<lfloor>s\<rfloor>" by simp
    with rs show ?thesis
      by (auto simp: round_half_even_def)
  qed
qed

lemma ulp_pos: "0 < ulp fmt x"
  by (simp add: ulp_def)

lemma two_powr_int: "0 \<le> k \<Longrightarrow> (2::real) powr (of_int k) = of_int (2 ^ nat k)"
proof -
  assume "0 \<le> k"
  then obtain n where k: "k = int n" by (rule nonneg_int_cases)
  have "(2::real) powr (real n) = 2 ^ n" by (rule powr_realpow) simp
  then show ?thesis by (simp add: k)
qed

lemma floor_log2: "0 < x \<Longrightarrow> 2 powr (of_int \<lfloor>log 2 x\<rfloor>) \<le> x \<and> x < 2 powr (of_int \<lfloor>log 2 x\<rfloor> + 1)"
proof -
  assume x: "0 < x"
  have "of_int \<lfloor>log 2 x\<rfloor> \<le> log 2 x" by simp
  then have "2 powr (of_int \<lfloor>log 2 x\<rfloor>) \<le> 2 powr (log 2 x)"
    by (simp only: powr_le_cancel_iff) 
  moreover have "log 2 x < of_int \<lfloor>log 2 x\<rfloor> + 1" by linarith
  then have "2 powr (log 2 x) < 2 powr (of_int \<lfloor>log 2 x\<rfloor> + 1)"
    by (simp only: powr_less_cancel_iff)
  ultimately show ?thesis using x by simp
qed

lemma floor_log2_eq: "2 powr (of_int e) \<le> x \<Longrightarrow> x < 2 powr (of_int e + 1) \<Longrightarrow> \<lfloor>log 2 x\<rfloor> = e"
proof -
  assume lo: "2 powr (of_int e) \<le> x" and hi: "x < 2 powr (of_int e + 1)"
  have x: "0 < x" using lo by (rule less_le_trans [rotated]) simp
  from lo x have "of_int e \<le> log 2 x" by (simp add: le_log_iff)
  moreover from hi x have "log 2 x < of_int e + 1" by (simp add: log_less_iff)
  ultimately show ?thesis by linarith
qed


lemma round_half_even_near: "of_int n \<le> r \<Longrightarrow> r < of_int n + 1 / 2 \<Longrightarrow> round_half_even r = n"
proof -
  assume lo: "of_int n \<le> r" and hi: "r < of_int n + 1 / 2"
  then have "\<lfloor>r\<rfloor> = n" by linarith
  with hi show ?thesis by (simp add: round_half_even_def)
qed

lemma fl_nonneg: "0 \<le> x \<Longrightarrow> 0 \<le> fl fmt x"
proof -
  assume x: "0 \<le> x"
  then have "0 \<le> x / ulp fmt x" using ulp_pos [of fmt x] by simp
  then have "0 \<le> \<lfloor>x / ulp fmt x\<rfloor>" by simp
  moreover have "\<lfloor>x / ulp fmt x\<rfloor> \<le> round_half_even (x / ulp fmt x)"
    by (simp add: round_half_even_def)
  ultimately have "0 \<le> round_half_even (x / ulp fmt x)" by linarith
  then show ?thesis using ulp_pos [of fmt x] by (simp add: fl_def)
qed

lemma fl_le_grid:
  assumes "0 < x" and "x \<le> b" and "b = ulp fmt x * of_int n"
  shows "fl fmt x \<le> b"
proof -
  have u: "0 < ulp fmt x" by (rule ulp_pos)
  from assms(2,3) u have "x / ulp fmt x \<le> of_int n"
    by (simp add: pos_divide_le_eq mult.commute)
  then have "round_half_even (x / ulp fmt x) \<le> n"
    using round_half_even_mono [of "x / ulp fmt x" "of_int n"] by (simp add: round_half_even_int)
  then have "ulp fmt x * of_int (round_half_even (x / ulp fmt x)) \<le> ulp fmt x * of_int n"
    using u by simp
  with assms(1,3) show ?thesis by (simp add: fl_def)
qed

lemma fl_ge_grid:
  assumes "0 < y" and "b \<le> y" and "b = ulp fmt y * of_int n"
  shows "b \<le> fl fmt y"
proof -
  have u: "0 < ulp fmt y" by (rule ulp_pos)
  from assms(2,3) u have "of_int n \<le> y / ulp fmt y"
    by (simp add: pos_le_divide_eq mult.commute)
  then have "n \<le> round_half_even (y / ulp fmt y)"
    using round_half_even_mono [of "of_int n" "y / ulp fmt y"] by (simp add: round_half_even_int)
  then have "ulp fmt y * of_int n \<le> ulp fmt y * of_int (round_half_even (y / ulp fmt y))"
    using u by simp
  with assms(1,3) show ?thesis by (simp add: fl_def)
qed

lemma powr_grid:
  assumes "a + int (precision fmt) - 1 \<ge> e" 
  shows "\<exists>n. (2::real) powr (of_int a) = 2 powr (of_int e - real (precision fmt) + 1) * of_int n"
proof -
  define k where "k = a + int (precision fmt) - 1 - e"
  have k: "0 \<le> k" using assms by (simp add: k_def)
  have "(of_int a :: real) = (of_int e - real (precision fmt) + 1) + of_int k"
    by (simp add: k_def)
  then have "(2::real) powr (of_int a) = 2 powr (of_int e - real (precision fmt) + 1) * 2 powr (of_int k)"
    by (simp only: powr_add)
  with two_powr_int [OF k] show ?thesis by metis
qed

lemma exponent_mono: "0 < x \<Longrightarrow> x \<le> y \<Longrightarrow> exponent fmt x \<le> exponent fmt y"
proof -
  assume x: "0 < x" and xy: "x \<le> y"
  then have "log 2 x \<le> log 2 y" by simp
  then have "\<lfloor>log 2 x\<rfloor> \<le> \<lfloor>log 2 y\<rfloor>" by (rule floor_mono)
  with x xy show ?thesis by (simp add: exponent_def)
qed

lemma ulp_eq: "ulp fmt x = 2 powr (of_int (exponent fmt x) - real (precision fmt) + 1)"
  by (simp add: ulp_def)

lemma fl_mono:
  assumes p: "0 < precision fmt" and x: "0 \<le> x" and xy: "x \<le> y"
  shows "fl fmt x \<le> fl fmt y"
proof (cases "x = 0")
  case True
  with x xy show ?thesis using fl_nonneg [of y fmt] by (simp add: fl_def)
next
  case False
  with x have x0: "0 < x" by simp
  with xy have y0: "0 < y" by simp
  from exponent_mono [OF x0 xy] have le: "exponent fmt x \<le> exponent fmt y" .
  show ?thesis
  proof (cases "exponent fmt x = exponent fmt y")
    case True
    then have u: "ulp fmt x = ulp fmt y" by (simp add: ulp_def)
    have "x / ulp fmt y \<le> y / ulp fmt y"
      using xy ulp_pos [of fmt y] by (simp add: divide_right_mono)
    then have "round_half_even (x / ulp fmt y) \<le> round_half_even (y / ulp fmt y)"
      by (rule round_half_even_mono)
    then have "ulp fmt y * of_int (round_half_even (x / ulp fmt y))
        \<le> ulp fmt y * of_int (round_half_even (y / ulp fmt y))"
      using ulp_pos [of fmt y] by simp
    with x0 y0 u show ?thesis by (simp add: fl_def)
  next
    case False
    with le have lt: "exponent fmt x < exponent fmt y" by simp
    define ey where "ey = exponent fmt y"
    define b :: real where "b = 2 powr (of_int ey)"
    have "emin fmt \<le> exponent fmt x" by (simp add: exponent_def)
    with lt have ey: "ey = \<lfloor>log 2 y\<rfloor>"
      using y0 by (simp add: ey_def exponent_def max_def split: if_splits)
    have "\<lfloor>log 2 x\<rfloor> \<le> exponent fmt x" using x0 by (simp add: exponent_def)
    with lt have "\<lfloor>log 2 x\<rfloor> + 1 \<le> ey" by (simp add: ey_def)
    then have pw: "(2::real) powr (of_int \<lfloor>log 2 x\<rfloor> + 1) \<le> 2 powr (of_int ey)"
      by (simp only: powr_le_cancel_iff)
    from floor_log2 [OF x0] have "x < 2 powr (of_int \<lfloor>log 2 x\<rfloor> + 1)" by (rule conjunct2)
    from less_le_trans [OF this pw] have xb: "x \<le> b" unfolding b_def by (rule less_imp_le)
    from floor_log2 [OF y0] have b_le: "b \<le> y" by (simp add: b_def ey)
    from lt have "exponent fmt x \<le> ey + int (precision fmt) - 1"
      using p by (simp add: ey_def)
    from powr_grid [OF this] obtain n where "b = ulp fmt x * of_int n"
      by (auto simp: b_def ulp_eq)
    from fl_le_grid [OF x0 xb this] have 1: "fl fmt x \<le> b" .
    have "exponent fmt y \<le> ey + int (precision fmt) - 1"
      using p by (simp add: ey_def)
    from powr_grid [OF this] obtain m where "b = ulp fmt y * of_int m"
      by (auto simp: b_def ulp_eq)
    from fl_ge_grid [OF y0 b_le this] have 2: "b \<le> fl fmt y" .
    from 1 2 show ?thesis by simp
  qed
qed

lemma exponent_pow2: "emin fmt \<le> k \<Longrightarrow> exponent fmt (2 powr (of_int k)) = k"
proof -
  assume k: "emin fmt \<le> k"
  have "\<lfloor>log 2 (2 powr (of_int k))\<rfloor> = k" by simp
  with k show ?thesis by (simp add: exponent_def)
qed

lemma fl_pow2:
  assumes p: "0 < precision fmt" and k: "emin fmt \<le> k"
  shows "fl fmt (2 powr (of_int k)) = 2 powr (of_int k)"
proof -
  define b :: real where "b = 2 powr (of_int k)"
  have b0: "0 < b" by (simp add: b_def)
  have "exponent fmt b \<le> k + int (precision fmt) - 1"
    using p by (simp add: b_def exponent_pow2 [OF k])
  from powr_grid [OF this] obtain n where g: "b = ulp fmt b * of_int n"
    by (auto simp: b_def ulp_eq)
  from fl_le_grid [OF b0 _ g] fl_ge_grid [OF b0 _ g] show ?thesis
    by (simp add: b_def)
qed

lemma fl_one: "0 < precision fmt \<Longrightarrow> emin fmt \<le> 0 \<Longrightarrow> fl fmt 1 = 1"
  using fl_pow2 [of fmt 0] by simp

lemma fl_one_plus_small:
  assumes p: "0 < precision fmt" and e: "emin fmt \<le> 0"
    and d: "0 \<le> d" "d < 2 powr (- real (precision fmt))"
  shows "fl fmt (1 + d) = 1"
proof -
  have "(2::real) powr (- real (precision fmt)) \<le> 2 powr 0"
    by (simp only: powr_le_cancel_iff)
  with d have d1: "d < 1" by simp
  have "\<lfloor>log 2 (1 + d)\<rfloor> = 0"
    using d d1 by (intro floor_log2_eq) simp_all
  with d e have ex: "exponent fmt (1 + d) = 0" by (simp add: exponent_def)
  then have u: "ulp fmt (1 + d) = 2 powr (1 - real (precision fmt))"
    by (simp add: ulp_def)
  define m :: int where "m = 2 ^ (precision fmt - 1)"
  have m: "(of_int m :: real) = 2 powr (real (precision fmt) - 1)"
    using two_powr_int [of "int (precision fmt) - 1"] p
    by (simp add: m_def nat_diff_distrib' of_nat_diff)
  have inv: "1 / ulp fmt (1 + d) = of_int m"
    by (simp add: u m powr_diff field_simps)
  have "d * of_int m < 2 powr (- real (precision fmt)) * 2 powr (real (precision fmt) - 1)"
    unfolding m using d(2) by (simp add: mult_strict_right_mono)
  also have "\<dots> = 2 powr (- real (precision fmt) + (real (precision fmt) - 1))"
    by (simp only: powr_add)
  also have "\<dots> = 1 / 2"
    by (simp add: powr_neg_one)
  finally have half: "d * of_int m < 1 / 2" .
  have "(1 + d) / ulp fmt (1 + d) = (1 + d) * (1 / ulp fmt (1 + d))" by simp
  also have "\<dots> = (1 + d) * of_int m" by (simp only: inv)
  also have "\<dots> = of_int m + d * of_int m" by (simp add: algebra_simps)
  finally have q: "(1 + d) / ulp fmt (1 + d) = of_int m + d * of_int m" .
  have "0 \<le> d * of_int m" using d(1) by (simp add: m)
  with half have "round_half_even ((1 + d) / ulp fmt (1 + d)) = m"
    unfolding q by (intro round_half_even_near) simp_all
  moreover have "1 + d \<noteq> 0" using d by simp
  ultimately have "fl fmt (1 + d) = ulp fmt (1 + d) * of_int m" by (simp add: fl_def)
  also have "\<dots> = 1" using inv ulp_pos [of fmt "1 + d"] by (simp add: field_simps)
  finally show ?thesis .
qed

lemma exponent_pow2': "exponent fmt (2 powr (of_int k)) = max k (emin fmt)"
proof -
  have "\<lfloor>log 2 (2 powr (of_int k))\<rfloor> = k" by simp
  then show ?thesis by (simp add: exponent_def)
qed

lemma fl_pow2':
  assumes p: "0 < precision fmt" and k: "emin fmt \<le> k + int (precision fmt) - 1"
  shows "fl fmt (2 powr (of_int k)) = 2 powr (of_int k)"
proof -
  define b :: real where "b = 2 powr (of_int k)"
  have b0: "0 < b" by (simp add: b_def)
  have "exponent fmt b \<le> k + int (precision fmt) - 1"
    using p k by (simp add: b_def exponent_pow2')
  from powr_grid [OF this] obtain n where g: "b = ulp fmt b * of_int n"
    by (auto simp: b_def ulp_eq)
  from fl_le_grid [OF b0 _ g] fl_ge_grid [OF b0 _ g] show ?thesis
    by (simp add: b_def)
qed

lemma fl_one_plus_ge: 
  assumes "0 < precision fmt" and "emin fmt \<le> 0" and "0 \<le> d"
  shows "1 \<le> fl fmt (1 + d)"
  using fl_mono [OF assms(1), of 1 "1 + d"] fl_one [OF assms(1,2)] assms(3) by simp

lemma relevance_value_le_1:
  assumes p: "0 < precision fmt" and e: "emin fmt \<le> 0" and d: "0 \<le> d"
  shows "0 \<le> float_value fmt (One_over_one_plus d)" and "float_value fmt (One_over_one_plus d) \<le> 1"
proof -
  from fl_one_plus_ge [OF p e d] have q: "0 \<le> 1 / fl fmt (1 + d)" "1 / fl fmt (1 + d) \<le> 1"
    by simp_all
  from fl_nonneg [OF q(1)] show "0 \<le> float_value fmt (One_over_one_plus d)" by simp
  from fl_mono [OF p q] fl_one [OF p e] show "float_value fmt (One_over_one_plus d) \<le> 1" by simp
qed

lemma relevance_value_at_0:
  assumes p: "0 < precision fmt" and e: "emin fmt \<le> 0"
  shows "float_value fmt (One_over_one_plus 0) = 1"
  by (simp add: fl_one [OF p e])

lemma relevance_value_small:
  assumes p: "0 < precision fmt" and e: "emin fmt \<le> 0"
    and d: "0 \<le> d" "d < 2 powr (- real (precision fmt))"
  shows "float_value fmt (One_over_one_plus d) = 1"
  by (simp add: fl_one_plus_small [OF p e d] fl_one [OF p e])

lemma relevance_value_mono:
  assumes p: "0 < precision fmt" and e: "emin fmt \<le> 0" and d: "0 \<le> d" "d \<le> d'"
  shows "float_value fmt (One_over_one_plus d') \<le> float_value fmt (One_over_one_plus d)"
proof -
  from d have a: "0 \<le> 1 + d" "1 + d \<le> 1 + d'" by simp_all
  from fl_mono [OF p a] have le: "fl fmt (1 + d) \<le> fl fmt (1 + d')" .
  from fl_one_plus_ge [OF p e d(1)] have pos: "0 < fl fmt (1 + d)" by simp
  from d have "0 \<le> d'" by simp
  from fl_one_plus_ge [OF p e this] have pos': "0 < fl fmt (1 + d')" by simp
  from le pos have "1 / fl fmt (1 + d') \<le> 1 / fl fmt (1 + d)"
    by (simp add: frac_le)
  moreover from pos' have "0 \<le> 1 / fl fmt (1 + d')" by simp
  ultimately show ?thesis using fl_mono [OF p] by simp
qed

lemma relevance_value_pos:
  assumes p: "0 < precision fmt" and e: "emin fmt \<le> 0" and d: "0 \<le> d"
    and k: "k = int (precision fmt) - 1 - emin fmt" and b: "1 + d \<le> 2 powr (of_int k)"
  shows "0 < float_value fmt (One_over_one_plus d)"
proof -
  from e p k have k0: "emin fmt \<le> k" by simp
  from d have "0 \<le> 1 + d" by simp
  from fl_mono [OF p this b] fl_pow2 [OF p k0] have up: "fl fmt (1 + d) \<le> 2 powr (of_int k)" by simp
  from fl_one_plus_ge [OF p e d] have pos: "0 < fl fmt (1 + d)" by simp
  have "(2::real) powr (of_int (- k)) = 1 / 2 powr (of_int k)"
    by (simp add: powr_minus_divide)
  also from up pos have "\<dots> \<le> 1 / fl fmt (1 + d)"
    by (simp add: frac_le)
  finally have lo: "2 powr (of_int (- k)) \<le> 1 / fl fmt (1 + d)" .
  have "emin fmt \<le> - k + int (precision fmt) - 1" by (simp add: k)
  from fl_pow2' [OF p this] have "fl fmt (2 powr (of_int (- k))) = 2 powr (of_int (- k))" .
  with fl_mono [OF p _ lo] have "2 powr (of_int (- k)) \<le> fl fmt (1 / fl fmt (1 + d))" by simp
  moreover have "(0::real) < 2 powr (of_int (- k))" by simp
  ultimately have "0 < fl fmt (1 / fl fmt (1 + d))" by (rule less_le_trans [rotated])
  then show ?thesis by simp
qed

lemma FLT_MAX_below: "1 + FLT_MAX \<le> 2 powr 149"
  by (simp add: FLT_MAX_def)

lemma relevance_value_pos_formats:
  assumes "fmt = binary32 \<or> fmt = binary64" and "0 \<le> d" and "d \<le> FLT_MAX"
  shows "0 < float_value fmt (One_over_one_plus d)"
  using assms(1)
proof
  assume f: "fmt = binary32"
  have "1 + d \<le> 2 powr (of_int 149)" using assms(3) FLT_MAX_below by simp
  then show ?thesis
    using assms(2) by (intro relevance_value_pos [where k = 149]) (simp_all add: f binary32_def)
next
  assume f: "fmt = binary64"
  have "(2::real) powr 149 \<le> 2 powr 1074" by (simp only: powr_le_cancel_iff)
  then have "1 + d \<le> 2 powr (of_int 1074)" using assms(3) FLT_MAX_below by simp
  then show ?thesis
    using assms(2) by (intro relevance_value_pos [where k = 1074]) (simp_all add: f binary64_def)
qed

lemma tiny32: "(1 / 2 ^ 60 :: real) < 2 powr (- real (precision binary32))"
  by (simp add: binary32_def powr_minus_divide)

lemma tiny64: "(1 / 2 ^ 60 :: real) < 2 powr (- real (precision binary64))"
  by (simp add: binary64_def powr_minus_divide)

section \<open>Facts about the index and the search loop\<close>

lemma l2sqr_nonneg: "0 \<le> l2sqr x y"
  unfolding l2sqr_def by (rule sum_list_nonneg) auto

lemma index_search_candidates:
  assumes "index_search ix q k = Returns cands" and "(pos, dv) \<in> set cands"
  shows "(0 \<le> pos \<and> nat pos < length (idx_xb ix) \<and> dv = l2sqr q (idx_xb ix ! nat pos))
         \<or> (pos = - 1 \<and> dv = FLT_MAX)"
proof -
  define scored where "scored = zip (map int [0 ..< length (idx_xb ix)]) (map (l2sqr q) (idx_xb ix))"
  from assms(1) have cands: "cands = take (nat k) (sort_key snd scored)
      @ replicate (nat k - length (take (nat k) (sort_key snd scored))) (- 1, FLT_MAX)"
    by (auto simp: index_search_def Let_def scored_def split: if_splits)
  show ?thesis
  proof (cases "(pos, dv) \<in> set (take (nat k) (sort_key snd scored))")
    case True
    then have "(pos, dv) \<in> set scored"
      by (auto dest: in_set_takeD)
    then obtain i where "i < length (idx_xb ix)" "pos = int i" "dv = l2sqr q (idx_xb ix ! i)"
      by (auto simp: scored_def in_set_zip)
    then show ?thesis by simp
  next
    case False
    with assms(2) cands have "(pos, dv) \<in> set (replicate (nat k - length (take (nat k) (sort_key snd scored))) (- 1, FLT_MAX))"
      by (metis Un_iff set_append)
    then show ?thesis by (auto simp del: replicate.simps)
  qed
qed

lemma collect_sources:
  assumes "collect cs k f cands acc = Returns rs" and "r \<in> set rs"
  shows "r \<in> set acc \<or> (\<exists>pos dv c. (pos, dv) \<in> set cands \<and> pos < int (length cs)
           \<and> getitem cs pos = Returns c \<and> r = make_result c dv)"
  using assms
proof (induction cands arbitrary: acc)
  case Nil
  then show ?case by simp
next
  case (Cons cand cands)
  obtain pos dv where cand: "cand = (pos, dv)" by (cases cand)
  show ?case
  proof (cases "pos < int (length cs)")
    case False
    with Cons.prems cand have "collect cs k f cands acc = Returns rs" by simp
    from Cons.IH [OF this Cons.prems(2)] show ?thesis by auto
  next
    case True
    with Cons.prems cand obtain c where c: "getitem cs pos = Returns c"
      by (auto split: outcome.splits)
    define acc' where "acc' = (if accepted f (make_result c dv) then acc @ [make_result c dv] else acc)"
    have here: "r \<in> set acc' \<Longrightarrow> ?thesis"
      using True c cand by (auto simp: acc'_def split: if_splits)
    show ?thesis
    proof (cases "int (length acc') \<ge> k")
      case stop: True
      with Cons.prems True c cand have "rs = acc'"
        by (simp add: acc'_def Let_def)
      with Cons.prems(2) here show ?thesis by simp
    next
      case go: False
      with Cons.prems True c cand have "collect cs k f cands acc' = Returns rs"
        by (simp add: acc'_def Let_def)
      from Cons.IH [OF this Cons.prems(2)] here show ?thesis by auto
    qed
  qed
qed

lemma collect_accepted:
  assumes "collect cs k f cands acc = Returns rs" and "\<forall>r \<in> set acc. accepted f r"
  shows "\<forall>r \<in> set rs. accepted f r"
  using assms
proof (induction cands arbitrary: acc)
  case Nil
  then show ?case by simp
next
  case (Cons cand cands)
  obtain pos dv where cand: "cand = (pos, dv)" by (cases cand)
  show ?case
  proof (cases "pos < int (length cs)")
    case False
    with Cons.prems cand have "collect cs k f cands acc = Returns rs" by simp
    from Cons.IH [OF this Cons.prems(2)] show ?thesis .
  next
    case True
    with Cons.prems cand obtain c where c: "getitem cs pos = Returns c"
      by (auto split: outcome.splits)
    define acc' where "acc' = (if accepted f (make_result c dv) then acc @ [make_result c dv] else acc)"
    have acc': "\<forall>r \<in> set acc'. accepted f r"
      using Cons.prems(2) by (simp add: acc'_def)
    show ?thesis
    proof (cases "int (length acc') \<ge> k")
      case stop: True
      with Cons.prems True c cand have "rs = acc'"
        by (simp add: acc'_def Let_def)
      with acc' show ?thesis by simp
    next
      case go: False
      with Cons.prems True c cand have "collect cs k f cands acc' = Returns rs"
        by (simp add: acc'_def Let_def)
      from Cons.IH [OF this acc'] show ?thesis .
    qed
  qed
qed

lemma collect_unfiltered:
  assumes "\<forall>(pos, dv) \<in> set cands. \<exists>c. getitem cs pos = Returns c \<and> pos < int (length cs)"
    and "int (length acc) + int (length cands) \<le> k"
  shows "\<exists>rs. collect cs k None cands acc = Returns rs \<and> length rs = length acc + length cands"
  using assms
proof (induction cands arbitrary: acc)
  case Nil
  then show ?case by simp
next
  case (Cons cand cands)
  obtain pos dv where cand: "cand = (pos, dv)" by (cases cand)
  with Cons.prems(1) obtain c where c: "getitem cs pos = Returns c" "pos < int (length cs)"
    by auto
  show ?case
  proof (cases "cands = []")
    case True
    with c cand show ?thesis
      by (simp add: accepted_def Let_def)
  next
    case False
    with Cons.prems(2) have more: "\<not> k \<le> int (length (acc @ [make_result c dv]))"
      by (cases cands) simp_all
    from Cons.prems have "\<exists>rs. collect cs k None cands (acc @ [make_result c dv]) = Returns rs
        \<and> length rs = length (acc @ [make_result c dv]) + length cands"
      by (intro Cons.IH) simp_all
    with c cand more show ?thesis
      by (simp add: accepted_def Let_def)
  qed
qed

lemma search_sources:
  assumes "search self q k f = Returns rs" and "r \<in> set rs"
  obtains ix pos dv c where "index self = Some ix"
    and "(0 \<le> pos \<and> nat pos < length (idx_xb ix) \<and> dv = l2sqr (model self q) (idx_xb ix ! nat pos))
          \<or> (pos = - 1 \<and> dv = FLT_MAX)"
    and "pos < int (length (chunks self))"
    and "getitem (chunks self) pos = Returns c"
    and "r = make_result c dv"
proof (cases "index self")
  case None
  with assms show ?thesis by (simp add: search_def)
next
  case (Some ix)
  with assms(1) obtain cands where
    cands: "index_search ix (model self q) (fetch_limit k f) = Returns cands"
    and run: "collect (chunks self) k f cands [] = Returns rs"
    by (auto simp: search_def split: outcome.splits)
  from collect_sources [OF run assms(2)] obtain pos dv c where
    src: "(pos, dv) \<in> set cands" "pos < int (length (chunks self))"
      "getitem (chunks self) pos = Returns c" "r = make_result c dv"
    by auto
  from that [OF Some index_search_candidates [OF cands src(1)] src(2-4)] show ?thesis .
qed

lemma search_score_nonneg:
  assumes "search self q k f = Returns rs" and "r \<in> set rs"
  shows "0 \<le> score r \<and> relevance r = One_over_one_plus (score r)"
proof -
  obtain ix pos dv c where "index self = Some ix"
    and d: "(0 \<le> pos \<and> nat pos < length (idx_xb ix) \<and> dv = l2sqr (model self q) (idx_xb ix ! nat pos))
        \<or> (pos = - 1 \<and> dv = FLT_MAX)"
    and "pos < int (length (chunks self))"
    and "getitem (chunks self) pos = Returns c"
    and r: "r = make_result c dv"
    by (rule search_sources [OF assms])
  from d have "0 \<le> dv"
  proof
    assume "0 \<le> pos \<and> nat pos < length (idx_xb ix) \<and> dv = l2sqr (model self q) (idx_xb ix ! nat pos)"
    then show ?thesis by (simp add: l2sqr_nonneg)
  next
    assume "pos = - 1 \<and> dv = FLT_MAX"
    then show ?thesis by (simp add: FLT_MAX_def)
  qed
  with r show ?thesis by (simp add: make_result_def)
qed

lemma getitem_minus_one:
  "getitem xs (- 1) = (if xs = [] then Raises IndexError else Returns (last xs))"
  by (cases xs rule: rev_cases) (simp_all add: getitem_def)

lemma create_embeddings_state:
  assumes "create_embeddings ea self dsk cards = (Returns (), self', dsk')"
  shows "chunks self' = concat (map pc_chunks cards)"
    and "model self' = model self"
    and "index self' = Some \<lparr>idx_d = dimension self, idx_xb = map (\<lambda>c. model self (text_c c)) (chunks self')\<rparr>"
proof -
  define collected where "collected = concat (map pc_chunks cards)"
  define fresh where "fresh = \<lparr>idx_d = dimension self, idx_xb = []\<rparr>"
  define emb where "emb = map (model self) (map text_c collected)"
  from assms obtain ix where add: "index_add ea fresh emb = Returns ix"
    and st: "self' = self\<lparr>chunks := collected, index := Some ix\<rparr>"
    by (auto simp: create_embeddings_def Let_def collected_def fresh_def emb_def save_index_def
        split: outcome.splits)
  from add have "ix = \<lparr>idx_d = dimension self, idx_xb = emb\<rparr>"
    by (cases "emb = []") (auto simp: index_add_def fresh_def split: option.splits if_splits)
  with st show "chunks self' = concat (map pc_chunks cards)"
    and "model self' = model self"
    and "index self' = Some \<lparr>idx_d = dimension self, idx_xb = map (\<lambda>c. model self (text_c c)) (chunks self')\<rparr>"
    by (simp_all add: collected_def emb_def)
qed

subsection \<open>A batch without chunks\<close>

text \<open>
  \<open>create_embeddings\<close> itself does not look at the number of chunks. With none, the
  outcome of the call is the outcome of \<open>add\<close> on what the embedder returns for an
  empty list; if that is accepted, the instance is left with an index and no chunk,
  and the first search with \<open>k > 0\<close> raises \<open>IndexError\<close> at \<open>self.chunks[-1]\<close>.
\<close>

lemma create_embeddings_no_chunks:
  assumes "concat (map pc_chunks cards) = []"
  shows "create_embeddings empty_add self dsk cards =
     (case empty_add of
        Some e \<Rightarrow> (Raises e, self\<lparr>chunks := [], index := Some \<lparr>idx_d = dimension self, idx_xb = []\<rparr>\<rparr>, dsk)
      | None \<Rightarrow> (Returns (), self\<lparr>chunks := [], index := Some \<lparr>idx_d = dimension self, idx_xb = []\<rparr>\<rparr>,
                 \<lparr>faiss_index_bin = Some (Some \<lparr>idx_d = dimension self, idx_xb = []\<rparr>),
                    chunks_metadata_pkl = Some []\<rparr>))"
  using assms
  by (simp add: create_embeddings_def index_add_def save_index_def Let_def split: option.splits)

lemma search_without_chunks:
  assumes "index self = Some ix" and "idx_xb ix = []" and "chunks self = []"
    and "length (model self q) = idx_d ix" and "0 < k"
  shows "search self q k card_filter = Raises IndexError"
proof -
  from assms(5) have "0 < fetch_limit k card_filter"
    by (simp add: fetch_limit_def)
  then obtain n where n: "nat (fetch_limit k card_filter) = Suc n"
    by (cases "nat (fetch_limit k card_filter)") simp_all
  with \<open>0 < fetch_limit k card_filter\<close> assms(2,4)
  have "index_search ix (model self q) (fetch_limit k card_filter)
      = Returns ((- 1, FLT_MAX) # replicate n (- 1, FLT_MAX))"
    by (simp add: index_search_def)
  then show ?thesis
    by (simp add: search_def assms(1,3) getitem_def)
qed

subsection \<open>The example inputs, evaluated\<close>

lemma visa_card_processed: "process_card_pdf ''Annual fee is 95'' ''visa_gold.pdf'' ''Visa Gold'' = Some visa_card"
  by code_simp

lemma amex_card_processed: "process_card_pdf ''No annual fee'' ''amex_blue.pdf'' ''Amex Blue'' = Some amex_card"
  by code_simp

lemma l2sqr_replicate: "l2sqr (replicate n a) (replicate n b) = real n * (a - b)\<^sup>2"
  by (induction n) (simp_all add: l2sqr_def algebra_simps)


lemma create_one_card:
  "create_embeddings ea (init example_model) empty_disk [visa_card] =
     (Returns (), one_card,
      \<lparr>faiss_index_bin = Some (index one_card), chunks_metadata_pkl = Some (chunks one_card)\<rparr>)"
  by (simp add: create_embeddings_def init_def visa_card_def visa_chunk_def
      index_add_def example_model_def save_index_def one_card_def Let_def)

lemma visa_matches: "sublist (lower ''VISA'') (lower ''Visa Gold'')"
  by code_simp

lemma amex_differs: "\<not> sublist (lower ''VISA'') (lower ''Amex Blue'')"
  by code_simp

lemma search_two_cards_filtered:
  "search two_cards ''annual fee'' 1 (Some ''VISA'') = Returns [make_result visa_chunk 18816]"
  by (simp add: search_def two_cards_def fetch_limit_def index_search_def example_model_def
      l2sqr_replicate getitem_def FLT_MAX_def accepted_def make_result_def visa_chunk_def amex_chunk_def
      visa_matches amex_differs)

lemma search_two_cards:
  "search two_cards ''annual fee'' 2 None = Returns [make_result amex_chunk 6144, make_result visa_chunk 18816]"
  by (simp add: search_def two_cards_def fetch_limit_def index_search_def example_model_def
      l2sqr_replicate getitem_def FLT_MAX_def accepted_def make_result_def visa_chunk_def amex_chunk_def)

section \<open>Claims about RAGSystem\<close>

text \<open>
  What \<open>create_embeddings\<close> stores is aligned: when it returns, the index holds one
  vector per chunk, in the order of \<open>self.chunks\<close>, and the vector at position \<open>i\<close> is
  the embedding of the text of the chunk at position \<open>i\<close>.
\<close>

lemma create_embeddings_stores_aligned:
  assumes "create_embeddings ea self dsk cards = (Returns (), self', dsk')"
  shows "\<exists>ix. index self' = Some ix
           \<and> chunks self' = concat (map pc_chunks cards)
           \<and> length (idx_xb ix) = length (chunks self')
           \<and> (\<forall>i < length (chunks self'). idx_xb ix ! i = model self' (text_c (chunks self' ! i)))"
proof -
  note cs = create_embeddings_state(1) [OF assms]
    and m = create_embeddings_state(2) [OF assms]
    and ix = create_embeddings_state(3) [OF assms]
  show ?thesis
    by (rule exI [of _ "\<lparr>idx_d = dimension self, idx_xb = map (\<lambda>c. model self (text_c c)) (chunks self')\<rparr>"])
      (simp add: ix cs [symmetric] m)
qed


lemma l2sqr_Cons: "l2sqr (a # x) (b # y) = (a - b)\<^sup>2 + l2sqr x y"
  by (simp add: l2sqr_def)

lemma search_close_card:
  "search close_card ''Annual fee is 95'' 1 None = Returns [make_result visa_chunk (1 / 2 ^ 60)]"
proof -
  have far: "l2sqr (fine_model ''Annual fee is 95'') (fine_model ''Annual fee is 95.'') = 1 / 2 ^ 60"
    by (simp add: fine_model_def l2sqr_Cons l2sqr_replicate power2_eq_square)
  have len: "length (fine_model ''Annual fee is 95'') = 384"
    by (simp add: fine_model_def)
  have "index_search \<lparr>idx_d = 384, idx_xb = [fine_model ''Annual fee is 95.'']\<rparr>
      (fine_model ''Annual fee is 95'') 1 = Returns [(0, 1 / 2 ^ 60)]"
    unfolding index_search_def by (simp add: len far del: power.simps)
  then show ?thesis
    by (simp add: search_def close_card_def fetch_limit_def getitem_def accepted_def)
qed

text \<open>
  C2, as stated: the relevance of a result at distance \<open>d\<close> is \<open>1 / (1 + d)\<close>, lies in
  \<open>(0, 1]\<close>, decreases strictly as \<open>d\<close> increases and is 1 exactly when \<open>d = 0\<close>. The
  code evaluates the expression in floating point. On \<open>close_card\<close> the query
  \<open>Annual fee is 95\<close> lies \<open>1 / 2 ^ 60\<close> from the stored chunk; that distance is not
  0, and \<open>1.0 + d\<close> rounds to \<open>1.0\<close> in single and in double precision, so the
  relevance is 1.
\<close>

theorem relevance_one_at_positive_distance_counterexample:
  "search close_card ''Annual fee is 95'' 1 None = Returns [make_result visa_chunk (1 / 2 ^ 60)]
   \<and> score (make_result visa_chunk (1 / 2 ^ 60)) \<noteq> 0
   \<and> float_value binary32 (relevance (make_result visa_chunk (1 / 2 ^ 60))) = 1
   \<and> float_value binary64 (relevance (make_result visa_chunk (1 / 2 ^ 60))) = 1"
proof -
  have "float_value binary32 (One_over_one_plus (1 / 2 ^ 60)) = 1"
    by (rule relevance_value_small [OF _ _ _ tiny32]) (simp_all add: binary32_def)
  moreover have "float_value binary64 (One_over_one_plus (1 / 2 ^ 60)) = 1"
    by (rule relevance_value_small [OF _ _ _ tiny64]) (simp_all add: binary64_def)
  ultimately show ?thesis
    by (simp add: search_close_card make_result_def)
qed

text \<open>
  C2, amended: the relevance of a result at distance \<open>d\<close> is the floating-point value
  of \<open>1.0 / (1.0 + d)\<close>, sum and quotient each rounded to the nearest number of the
  format, single or double precision. That value lies in \<open>[0, 1]\<close>, and in \<open>(0, 1]\<close>
  for every distance up to \<open>FLT_MAX\<close>; it is 1 at \<open>d = 0\<close>; and of two results of a
  search, the one at the greater distance has no greater relevance.
\<close>

theorem search_relevance_rounded:
  assumes "search self q k f = Returns rs" and "r \<in> set rs"
    and "fmt = binary32 \<or> fmt = binary64"
  shows "relevance r = One_over_one_plus (score r)
         \<and> 0 \<le> float_value fmt (relevance r) \<and> float_value fmt (relevance r) \<le> 1
         \<and> (score r \<le> FLT_MAX \<longrightarrow> 0 < float_value fmt (relevance r))
         \<and> (score r = 0 \<longrightarrow> float_value fmt (relevance r) = 1)
         \<and> (\<forall>r' \<in> set rs. score r \<le> score r' \<longrightarrow>
               float_value fmt (relevance r') \<le> float_value fmt (relevance r))"
proof -
  from assms(3) have p: "0 < precision fmt" and e: "emin fmt \<le> 0"
    by (auto simp: binary32_def binary64_def)
  from search_score_nonneg [OF assms(1,2)]
  have d: "0 \<le> score r" and r: "relevance r = One_over_one_plus (score r)"
    by simp_all
  have mono: "float_value fmt (relevance r') \<le> float_value fmt (relevance r)"
    if "r' \<in> set rs" "score r \<le> score r'" for r'
  proof -
    from search_score_nonneg [OF assms(1) that(1)]
    have "relevance r' = One_over_one_plus (score r')" by simp
    with relevance_value_mono [OF p e d that(2)] r show ?thesis by simp
  qed
  have pos: "0 < float_value fmt (relevance r)" if "score r \<le> FLT_MAX"
    using relevance_value_pos_formats [OF assms(3) d that] r by simp
  have one: "float_value fmt (relevance r) = 1" if "score r = 0"
    using relevance_value_at_0 [OF p e] r that by simp
  from relevance_value_le_1 [OF p e d] r
  have "0 \<le> float_value fmt (relevance r)" and "float_value fmt (relevance r) \<le> 1"
    by simp_all
  with r mono pos one show ?thesis by blast
qed

theorem search_relevance_rounded_witness:
  "search two_cards ''annual fee'' 2 None = Returns [make_result amex_chunk 6144, make_result visa_chunk 18816]
   \<and> relevance (make_result amex_chunk 6144) = One_over_one_plus 6144
   \<and> 0 < float_value binary32 (relevance (make_result amex_chunk 6144))
   \<and> float_value binary32 (relevance (make_result amex_chunk 6144)) \<le> 1
   \<and> float_value binary32 (relevance (make_result visa_chunk 18816))
       \<le> float_value binary32 (relevance (make_result amex_chunk 6144))"
proof -
  have mem: "make_result amex_chunk 6144 \<in> set [make_result amex_chunk 6144, make_result visa_chunk 18816]"
    and mem': "make_result visa_chunk 18816 \<in> set [make_result amex_chunk 6144, make_result visa_chunk 18816]"
    by simp_all
  have sc: "score (make_result amex_chunk 6144) = 6144"
    and le: "score (make_result amex_chunk 6144) \<le> score (make_result visa_chunk 18816)"
    and fin: "score (make_result amex_chunk 6144) \<le> FLT_MAX"
    by (simp_all add: make_result_def FLT_MAX_def)
  note all = search_relevance_rounded [OF search_two_cards mem disjI1 [OF refl]]
  from all have 1: "relevance (make_result amex_chunk 6144) = One_over_one_plus 6144"
    unfolding sc by (rule conjunct1)
  from all have 2: "float_value binary32 (relevance (make_result amex_chunk 6144)) \<le> 1"
    by (elim conjE)
  from all have "score (make_result amex_chunk 6144) \<le> FLT_MAX \<longrightarrow>
      0 < float_value binary32 (relevance (make_result amex_chunk 6144))"
    by (elim conjE)
  with fin have 3: "0 < float_value binary32 (relevance (make_result amex_chunk 6144))"
    by (rule rev_mp)
  from all have "\<forall>r' \<in> set [make_result amex_chunk 6144, make_result visa_chunk 18816].
      score (make_result amex_chunk 6144) \<le> score r' \<longrightarrow>
      float_value binary32 (relevance r') \<le> float_value binary32 (relevance (make_result amex_chunk 6144))"
    by (elim conjE)
  from this [rule_format, OF mem' le]
  have 4: "float_value binary32 (relevance (make_result visa_chunk 18816))
      \<le> float_value binary32 (relevance (make_result amex_chunk 6144))" .
  from search_two_cards 1 2 3 4 show ?thesis
    by (intro conjI)
qed

text \<open>
  C3: with a filter given, the lowered \<open>card_name\<close> of every result contains the
  lowered filter.
\<close>

theorem search_respects_filter:
  assumes "search self q k (Some f) = Returns rs" and "r \<in> set rs"
  shows "sublist (lower f) (lower (card_name r))"
proof (cases "index self")
  case None
  with assms show ?thesis by (simp add: search_def)
next
  case (Some ix)
  with assms(1) obtain cands where "collect (chunks self) k (Some f) cands [] = Returns rs"
    by (auto simp: search_def split: outcome.splits)
  from collect_accepted [OF this] assms(2) have "accepted (Some f) r" by simp
  then show ?thesis by (simp add: accepted_def)
qed

theorem search_respects_filter_witness:
  "search two_cards ''annual fee'' 1 (Some ''VISA'') = Returns [make_result visa_chunk 18816]
   \<and> sublist (lower ''VISA'') (lower (card_name (make_result visa_chunk 18816)))"
  using search_respects_filter [OF search_two_cards_filtered, of "make_result visa_chunk 18816"]
  by (simp add: search_two_cards_filtered)

text \<open>
  C8 says that a search which asks the index for more entries than it holds returns
  the stored entries, each chunk at most once. The index fills the missing entries
  with the position \<open>-1\<close>, the test \<open>idx < len(self.chunks)\<close> lets \<open>-1\<close> pass, and
  \<open>self.chunks[-1]\<close> is the last chunk. What holds instead: without a filter, on an
  instance with as many chunks as vectors and at least one of them, a search with
  \<open>k\<close> greater than their number returns \<open>k\<close> results, more than there are chunks.
\<close>

theorem search_returns_more_than_stored:
  assumes "index self = Some ix" and "length (idx_xb ix) = length (chunks self)"
    and "chunks self \<noteq> []" and "length (model self q) = idx_d ix"
    and "int (length (chunks self)) < k"
  shows "\<exists>rs. search self q k None = Returns rs \<and> int (length rs) = k \<and> length (chunks self) < length rs"
proof -
  define scored where "scored = zip (map int [0 ..< length (idx_xb ix)]) (map (l2sqr (model self q)) (idx_xb ix))"
  define cands where "cands = take (nat k) (sort_key snd scored)
      @ replicate (nat k - length (take (nat k) (sort_key snd scored))) (- 1, FLT_MAX)"
  from assms(5) have k: "0 < k" by linarith
  with assms(4) have run: "index_search ix (model self q) k = Returns cands"
    by (simp add: index_search_def Let_def scored_def cands_def)
  have len: "length cands = nat k"
    by (simp add: cands_def)
  have ok: "\<exists>c. getitem (chunks self) pos = Returns c \<and> pos < int (length (chunks self))"
    if "(pos, dv) \<in> set cands" for pos dv
  proof -
    from index_search_candidates [OF run that]
    have "(0 \<le> pos \<and> nat pos < length (chunks self)) \<or> pos = - 1"
      by (auto simp: assms(2))
    with assms(3) show ?thesis
      by (cases "chunks self") (auto simp: getitem_def)
  qed
  then have "\<forall>(pos, dv) \<in> set cands. \<exists>c. getitem (chunks self) pos = Returns c \<and> pos < int (length (chunks self))"
    by blast
  from collect_unfiltered [OF this, of "[]" k] len k
  obtain rs where "collect (chunks self) k None cands [] = Returns rs" "length rs = nat k"
    by auto
  with run assms(1,5) k show ?thesis
    by (simp add: search_def fetch_limit_def)
qed

text \<open>
  With the one chunk of \<open>visa_card\<close> stored and \<open>k = 2\<close>, the search returns that chunk
  twice, the second time with the score \<open>FLT_MAX\<close>.
\<close>

theorem search_over_fetch_repeats_chunk:
  "create_embeddings None (init example_model) empty_disk [visa_card] =
     (Returns (), one_card,
      \<lparr>faiss_index_bin = Some (index one_card), chunks_metadata_pkl = Some (chunks one_card)\<rparr>)
   \<and> chunks one_card = [visa_chunk]
   \<and> search one_card ''annual fee'' 2 None =
       Returns [make_result visa_chunk 18816, make_result visa_chunk FLT_MAX]
   \<and> (\<exists>rs. search one_card ''annual fee'' 2 None = Returns rs \<and> length (chunks one_card) < length rs)"
proof -
  have run: "search one_card ''annual fee'' 2 None =
      Returns [make_result visa_chunk 18816, make_result visa_chunk FLT_MAX]"
    by (simp add: search_def one_card_def fetch_limit_def index_search_def example_model_def
        l2sqr_replicate getitem_def accepted_def)
  have one: "chunks one_card = [visa_chunk]"
    by (simp add: one_card_def)
  have "\<exists>rs. search one_card ''annual fee'' 2 None = Returns rs \<and> int (length rs) = 2
        \<and> length (chunks one_card) < length rs"
  proof (rule search_returns_more_than_stored)
    show "index one_card = Some \<lparr>idx_d = 384, idx_xb = [example_model ''Annual fee is 95.'']\<rparr>"
      by (simp add: one_card_def)
    show "length (idx_xb \<lparr>idx_d = 384, idx_xb = [example_model ''Annual fee is 95.'']\<rparr>)
        = length (chunks one_card)"
      by (simp add: one)
    show "chunks one_card \<noteq> []"
      by (simp add: one)
    show "length (model one_card ''annual fee'')
        = idx_d \<lparr>idx_d = 384, idx_xb = [example_model ''Annual fee is 95.'']\<rparr>"
      by (simp add: one_card_def example_model_def)
    show "int (length (chunks one_card)) < 2"
      by (simp add: one)
  qed
  then have "\<exists>rs. search one_card ''annual fee'' 2 None = Returns rs \<and> length (chunks one_card) < length rs"
    by blast
  with run one show ?thesis
    by (simp add: create_one_card)
qed

text \<open>
  C10: when one of the two files is missing, \<open>load_index\<close> returns \<open>False\<close> and the
  instance is the one it was called on.
\<close>

theorem load_index_missing:
  assumes "faiss_index_bin dsk = None \<or> chunks_metadata_pkl dsk = None"
  shows "load_index self dsk = (Returns False, self)"
  using assms by (auto simp: load_index_def split: option.splits)

theorem load_index_missing_witness:
  "load_index (init example_model) empty_disk = (Returns False, init example_model)"
  using load_index_missing [of empty_disk "init example_model"]
  by (simp add: empty_disk_def)

end
